theory Spec2Isabelle
  imports Complex_Main "HOL-Library.Multiset"
begin

section \<open>Numeric values\<close>

text \<open>
  The program computes with NumPy double-precision values. A value is modelled as a
  real number or one of the three special values of IEEE arithmetic. The special values
  arise and propagate as IEEE prescribes: division by zero, \<open>inf - inf\<close>, anything with
  a NaN, and overflow in the scorer's arithmetic, where a result at or beyond the
  threshold \<open>2^1024 - 2^970\<close> rounds to an infinity. Below the threshold a result is
  the exact real one: the rounding of finite results and the sign of zero are outside
  the model, so a theorem about a finite value speaks of the exact value the double
  approximates.

  Embedding components and distances are finite throughout, so vectors are lists of
  reals; only averages and entropies can leave the finite values.
\<close>

datatype fl = Fin real | PInf | MInf | NaN

type_synonym vec = "real list"

datatype error = ValueError

definition overflow_threshold :: real where
  "overflow_threshold = 2 ^ 1024 - 2 ^ 970"

definition overflow :: "real \<Rightarrow> fl" where
  "overflow x =
     (if overflow_threshold \<le> x then PInf
      else if x \<le> - overflow_threshold then MInf
      else Fin x)"

fun fl_add :: "fl \<Rightarrow> fl \<Rightarrow> fl" where
  "fl_add NaN _ = NaN"
| "fl_add _ NaN = NaN"
| "fl_add PInf MInf = NaN"
| "fl_add MInf PInf = NaN"
| "fl_add PInf _ = PInf"
| "fl_add _ PInf = PInf"
| "fl_add MInf _ = MInf"
| "fl_add _ MInf = MInf"
| "fl_add (Fin a) (Fin b) = overflow (a + b)"

fun fl_neg :: "fl \<Rightarrow> fl" where
  "fl_neg (Fin a) = Fin (- a)"
| "fl_neg PInf = MInf"
| "fl_neg MInf = PInf"
| "fl_neg NaN = NaN"

definition fl_sub :: "fl \<Rightarrow> fl \<Rightarrow> fl" where
  "fl_sub x y = fl_add x (fl_neg y)"

fun fl_div :: "fl \<Rightarrow> fl \<Rightarrow> fl" where
  "fl_div NaN _ = NaN"
| "fl_div _ NaN = NaN"
| "fl_div (Fin a) (Fin b) =
     (if b \<noteq> 0 then overflow (a / b)
      else if a = 0 then NaN
      else if 0 < a then PInf else MInf)"
| "fl_div (Fin a) _ = Fin 0"
| "fl_div PInf (Fin b) = (if 0 \<le> b then PInf else MInf)"
| "fl_div MInf (Fin b) = (if 0 \<le> b then MInf else PInf)"
| "fl_div _ _ = NaN"

text \<open>IEEE comparison: a NaN compares false with everything.\<close>

fun fl_le :: "fl \<Rightarrow> fl \<Rightarrow> bool" where
  "fl_le NaN _ = False"
| "fl_le _ NaN = False"
| "fl_le MInf _ = True"
| "fl_le _ PInf = True"
| "fl_le (Fin a) (Fin b) = (a \<le> b)"
| "fl_le _ _ = False"

text \<open>\<open>np.sum\<close> of a one-dimensional array; the empty sum is \<open>0.0\<close>.\<close>

definition np_sum :: "fl list \<Rightarrow> fl" where
  "np_sum xs = foldl fl_add (Fin 0) xs"

section \<open>The entropy routine\<close>

text \<open>
  \<open>scipy.special.entr\<close>: \<open>-x log x\<close> for positive \<open>x\<close>, \<open>0\<close> at \<open>0\<close>,
  \<open>-inf\<close> for negative \<open>x\<close>, NaN for NaN.
\<close>

fun entr :: "fl \<Rightarrow> fl" where
  "entr NaN = NaN"
| "entr PInf = MInf"
| "entr MInf = MInf"
| "entr (Fin x) = (if 0 < x then overflow (- x * ln x) else if x = 0 then Fin 0 else MInf)"

text \<open>
  \<open>scipy.stats.entropy(pk, base=base)\<close> with no \<open>qk\<close>:
  \<^verbatim>\<open>
    if base is not None and base <= 0: raise ValueError(...)
    pk = 1.0*pk / np.sum(pk, axis=axis, keepdims=True)
    vec = special.entr(pk)
    S = np.sum(vec, axis=axis)
    S /= np.log(base)
  \<close>
\<close>

definition entropy :: "fl list \<Rightarrow> real \<Rightarrow> error + fl" where
  "entropy pk base =
     (if base \<le> 0 then Inl ValueError
      else let s = np_sum pk;
               pk' = map (\<lambda>p. fl_div p s) pk;
               vec = map entr pk'
           in Inr (fl_div (np_sum vec) (Fin (ln base))))"

section \<open>The scorer\<close>

text \<open>
  \<^verbatim>\<open>
  def information_of_statement(doc, equal_vocab_probability):
      ent = entropy([d[1] for d in doc], base=2)
      max_ent = entropy([equal_vocab_probability for x in range(len(doc))], base=2)
      return max_ent - ent
  \<close>
\<close>

definition information_of_statement :: "('a \<times> fl) list \<Rightarrow> fl \<Rightarrow> error + fl" where
  "information_of_statement doc equal_vocab_probability =
     (case entropy (map snd doc) 2 of
        Inl e \<Rightarrow> Inl e
      | Inr ent \<Rightarrow>
          (case entropy (replicate (length doc) equal_vocab_probability) 2 of
             Inl e \<Rightarrow> Inl e
           | Inr max_ent \<Rightarrow> Inr (fl_sub max_ent ent)))"

section \<open>The density estimator\<close>

text \<open>
  Subtraction of two one-dimensional arrays. Equal lengths subtract componentwise, an
  array of length one is broadcast against the other, and any other pair of shapes
  raises \<open>ValueError\<close>.
\<close>

definition np_sub :: "vec \<Rightarrow> vec \<Rightarrow> error + vec" where
  "np_sub a b =
     (if length a = length b then Inr (map2 (-) a b)
      else if length a = 1 then Inr (map (\<lambda>y. hd a - y) b)
      else if length b = 1 then Inr (map (\<lambda>x. x - hd b) a)
      else Inl ValueError)"

text \<open>\<open>np.linalg.norm\<close> of a one-dimensional array: the Euclidean norm.\<close>

definition euclidean_norm :: "vec \<Rightarrow> real" where
  "euclidean_norm array = sqrt (sum_list (map (\<lambda>x. x\<^sup>2) array))"

text \<open>\<open>[np.linalg.norm(arr - target) for arr in arrays]\<close>; the first failing
  subtraction aborts the comprehension.\<close>

fun distances_to :: "vec list \<Rightarrow> vec \<Rightarrow> error + real list" where
  "distances_to [] target = Inr []"
| "distances_to (arr # arrays) target =
     (case np_sub arr target of
        Inl e \<Rightarrow> Inl e
      | Inr d \<Rightarrow>
          (case distances_to arrays target of
             Inl e \<Rightarrow> Inl e
           | Inr ds \<Rightarrow> Inr (euclidean_norm d # ds)))"

text \<open>
  \<open>np.argsort\<close>: the indices that sort the list. Indices of equal distances are
  kept in their original order here; the estimator only reads the distances at the
  selected indices, which do not depend on how ties are ordered.
\<close>

definition argsort :: "real list \<Rightarrow> nat list" where
  "argsort ds = sort_key (\<lambda>i. ds ! i) [0..<length ds]"

text \<open>The Python slice \<open>xs[:k]\<close>: a negative \<open>k\<close> counts from the end.\<close>

definition slice_to :: "'a list \<Rightarrow> int \<Rightarrow> 'a list" where
  "slice_to xs k = (if 0 \<le> k then take (nat k) xs else take (nat (int (length xs) + k)) xs)"

text \<open>\<open>np.average\<close> without weights; the mean of no values is NaN (with a warning).\<close>

definition np_average :: "real list \<Rightarrow> fl" where
  "np_average xs = (if xs = [] then NaN else Fin (sum_list xs / real (length xs)))"

text \<open>
  \<^verbatim>\<open>
  def find_k_closest_avg(arrays, target, k):
      distances = [np.linalg.norm(arr - target) for arr in arrays]
      k_indices = np.argsort(distances)[:k]
      return np.average([distances[i] for i in k_indices])
  \<close>
\<close>

definition find_k_closest_avg :: "vec list \<Rightarrow> vec \<Rightarrow> int \<Rightarrow> error + fl" where
  "find_k_closest_avg arrays target k =
     (case distances_to arrays target of
        Inl e \<Rightarrow> Inl e
      | Inr distances \<Rightarrow>
          (let k_indices = slice_to (argsort distances) k
           in Inr (np_average (map (\<lambda>i. distances ! i) k_indices))))"

text \<open>
  The notions the specification states the estimator's result with: the Euclidean distance
  of two vectors of one length, the \<open>k\<close> smallest values of a list, and the arithmetic
  mean.
\<close>

definition euclidean_distance :: "vec \<Rightarrow> vec \<Rightarrow> real" where
  "euclidean_distance a b = sqrt (\<Sum>i<length b. (a ! i - b ! i)\<^sup>2)"



section \<open>The embedding source\<close>

text \<open>
  A Python string is a list of code points (\<open>len\<close> counts code points), and the
  loaded table \<open>glove_embeddings\<close> is a dictionary from strings to vectors. It is
  a module-level global in the source and an explicit argument here.
\<close>

type_synonym pystr = "nat list"

type_synonym table = "pystr \<rightharpoonup> vec"

text \<open>
  \<open>random.randint(a, b)\<close> returns some integer \<open>r\<close> with \<open>a \<le> r \<le> b\<close>. The
  generator's state is not modelled: a call is related to every value it may return.
\<close>

definition randint :: "int \<Rightarrow> int \<Rightarrow> int \<Rightarrow> bool" where
  "randint a b r = (a \<le> r \<and> r \<le> b)"

text \<open>
  \<^verbatim>\<open>
  def get_glove_embedding(word):
      try:
          return glove_embeddings[word]
      except KeyError:
          return np.array([random.randint(0, 600)] * 50)
  \<close>
  \<open>get_glove_embedding glove_embeddings word v\<close> holds when \<open>v\<close> is a vector the call
  may return.
\<close>

inductive get_glove_embedding :: "table \<Rightarrow> pystr \<Rightarrow> vec \<Rightarrow> bool"
  for glove_embeddings :: table
where
  found: "glove_embeddings word = Some v \<Longrightarrow> get_glove_embedding glove_embeddings word v"
| fallback: "glove_embeddings word = None \<Longrightarrow> randint 0 600 r \<Longrightarrow>
     get_glove_embedding glove_embeddings word (replicate 50 (real_of_int r))"

text \<open>
  A lookup is deterministic for a word when all its possible results coincide.
\<close>

definition deterministic_lookup :: "table \<Rightarrow> pystr \<Rightarrow> bool" where
  "deterministic_lookup glove_embeddings word =
     (\<forall>v v'. get_glove_embedding glove_embeddings word v \<longrightarrow>
        get_glove_embedding glove_embeddings word v' \<longrightarrow> v = v')"

section \<open>The transition builder\<close>

text \<open>
  \<^verbatim>\<open>
  def get_connections(paragraph):
      connections_ = []
      for curr_w, next_w in zip(paragraph, paragraph[1:]):
          connection = get_glove_embedding(curr_w) - get_glove_embedding(next_w)
          connections_.append(connection)
      return connections_
  \<close>
  The loop runs over the adjacent pairs from left to right; each iteration looks both
  tokens up anew, and a subtraction that raises ends the call.
\<close>

inductive get_connections :: "table \<Rightarrow> pystr list \<Rightarrow> error + vec list \<Rightarrow> bool"
  for glove_embeddings :: table
where
  gc_done: "length paragraph \<le> 1 \<Longrightarrow> get_connections glove_embeddings paragraph (Inr [])"
| gc_raise: "get_glove_embedding glove_embeddings curr_w e1 \<Longrightarrow>
     get_glove_embedding glove_embeddings next_w e2 \<Longrightarrow>
     np_sub e1 e2 = Inl err \<Longrightarrow>
     get_connections glove_embeddings (curr_w # next_w # rest) (Inl err)"
| gc_append: "get_glove_embedding glove_embeddings curr_w e1 \<Longrightarrow>
     get_glove_embedding glove_embeddings next_w e2 \<Longrightarrow>
     np_sub e1 e2 = Inr connection \<Longrightarrow>
     get_connections glove_embeddings (next_w # rest) (Inr connections) \<Longrightarrow>
     get_connections glove_embeddings (curr_w # next_w # rest) (Inr (connection # connections))"
| gc_later: "get_glove_embedding glove_embeddings curr_w e1 \<Longrightarrow>
     get_glove_embedding glove_embeddings next_w e2 \<Longrightarrow>
     np_sub e1 e2 = Inr connection \<Longrightarrow>
     get_connections glove_embeddings (next_w # rest) (Inl err) \<Longrightarrow>
     get_connections glove_embeddings (curr_w # next_w # rest) (Inl err)"

section \<open>The pipeline\<close>

text \<open>\<open>doc.split("\n")\<close>: the pieces between newlines, empty pieces included.\<close>

definition newline :: nat where
  "newline = 10"

fun split_from :: "pystr \<Rightarrow> pystr \<Rightarrow> pystr list" where
  "split_from cur [] = [cur]"
| "split_from cur (c # cs) =
     (if c = newline then cur # split_from [] cs else split_from (cur @ [c]) cs)"

definition split_lines :: "pystr \<Rightarrow> pystr list" where
  "split_lines doc = split_from [] doc"

text \<open>Iterating over a string yields its characters as strings of length one.\<close>

definition chars :: "pystr \<Rightarrow> pystr list" where
  "chars paragraph = map (\<lambda>c. [c]) paragraph"

text \<open>
  \<^verbatim>\<open>
  def process_text(doc):
      connections_ = []
      for paragraph in doc.split("\n"):
          if len(paragraph) < 100:
              continue
          connections_.extend(get_connections(paragraph))
      return connections_
  \<close>
\<close>

inductive process_paragraphs :: "table \<Rightarrow> pystr list \<Rightarrow> error + vec list \<Rightarrow> bool"
  for glove_embeddings :: table
where
  pp_end: "process_paragraphs glove_embeddings [] (Inr [])"
| pp_continue: "length paragraph < 100 \<Longrightarrow>
     process_paragraphs glove_embeddings rest r \<Longrightarrow>
     process_paragraphs glove_embeddings (paragraph # rest) r"
| pp_raise: "\<not> length paragraph < 100 \<Longrightarrow>
     get_connections glove_embeddings (chars paragraph) (Inl err) \<Longrightarrow>
     process_paragraphs glove_embeddings (paragraph # rest) (Inl err)"
| pp_extend: "\<not> length paragraph < 100 \<Longrightarrow>
     get_connections glove_embeddings (chars paragraph) (Inr cs) \<Longrightarrow>
     process_paragraphs glove_embeddings rest (Inr connections) \<Longrightarrow>
     process_paragraphs glove_embeddings (paragraph # rest) (Inr (cs @ connections))"
| pp_later: "\<not> length paragraph < 100 \<Longrightarrow>
     get_connections glove_embeddings (chars paragraph) (Inr cs) \<Longrightarrow>
     process_paragraphs glove_embeddings rest (Inl err) \<Longrightarrow>
     process_paragraphs glove_embeddings (paragraph # rest) (Inl err)"

definition process_text :: "table \<Rightarrow> pystr \<Rightarrow> error + vec list \<Rightarrow> bool" where
  "process_text glove_embeddings doc r = process_paragraphs glove_embeddings (split_lines doc) r"

text \<open>
  \<^verbatim>\<open>
  def tokenized_probabilities(paragraph, connections):
      paragraph_connections = get_connections(paragraph)
      return [(d, find_k_closest_avg(connections, d, 3)) for d in paragraph_connections]
  \<close>
\<close>

fun density_pairs :: "vec list \<Rightarrow> vec list \<Rightarrow> error + (vec \<times> fl) list" where
  "density_pairs connections [] = Inr []"
| "density_pairs connections (d # ds) =
     (case find_k_closest_avg connections d 3 of
        Inl e \<Rightarrow> Inl e
      | Inr a \<Rightarrow>
          (case density_pairs connections ds of
             Inl e \<Rightarrow> Inl e
           | Inr ps \<Rightarrow> Inr ((d, a) # ps)))"

inductive tokenized_probabilities ::
  "table \<Rightarrow> pystr \<Rightarrow> vec list \<Rightarrow> error + (vec \<times> fl) list \<Rightarrow> bool"
  for glove_embeddings :: table
where
  tp_raise: "get_connections glove_embeddings (chars paragraph) (Inl err) \<Longrightarrow>
     tokenized_probabilities glove_embeddings paragraph connections (Inl err)"
| tp_pairs: "get_connections glove_embeddings (chars paragraph) (Inr paragraph_connections) \<Longrightarrow>
     tokenized_probabilities glove_embeddings paragraph connections
       (density_pairs connections paragraph_connections)"

text \<open>
  The module-level loop prints one line per paragraph it scores:
  \<^verbatim>\<open>
  for idx, doc in tqdm(enumerate(document.split("\n"))):
      if len(doc) < 100:
          continue
      print(f"doc: {idx} , information: {information_of_statement(
          tokenized_probabilities(doc, connections), 1 / len(doc))}")
  \<close>
  The result of a run is the sequence of printed (index, score) pairs together with the
  exception that ended the run, if one did.
\<close>

type_synonym outcome = "(nat \<times> fl) list \<times> error option"

inductive scoring_loop :: "table \<Rightarrow> vec list \<Rightarrow> nat \<Rightarrow> pystr list \<Rightarrow> outcome \<Rightarrow> bool"
  for glove_embeddings :: table and connections :: "vec list"
where
  sl_end: "scoring_loop glove_embeddings connections idx [] ([], None)"
| sl_continue: "length doc < 100 \<Longrightarrow>
     scoring_loop glove_embeddings connections (Suc idx) rest r \<Longrightarrow>
     scoring_loop glove_embeddings connections idx (doc # rest) r"
| sl_raise: "\<not> length doc < 100 \<Longrightarrow>
     tokenized_probabilities glove_embeddings doc connections (Inl err) \<Longrightarrow>
     scoring_loop glove_embeddings connections idx (doc # rest) ([], Some err)"
| sl_raise_score: "\<not> length doc < 100 \<Longrightarrow>
     tokenized_probabilities glove_embeddings doc connections (Inr probs) \<Longrightarrow>
     information_of_statement probs (Fin (1 / real (length doc))) = Inl err \<Longrightarrow>
     scoring_loop glove_embeddings connections idx (doc # rest) ([], Some err)"
| sl_print: "\<not> length doc < 100 \<Longrightarrow>
     tokenized_probabilities glove_embeddings doc connections (Inr probs) \<Longrightarrow>
     information_of_statement probs (Fin (1 / real (length doc))) = Inr score \<Longrightarrow>
     scoring_loop glove_embeddings connections (Suc idx) rest (printed, status) \<Longrightarrow>
     scoring_loop glove_embeddings connections idx (doc # rest) ((idx, score) # printed, status)"

text \<open>
  The script: \<open>connections = process_text(document)\<close>, then the scoring loop over the
  same paragraphs.
\<close>

inductive run_script :: "table \<Rightarrow> pystr \<Rightarrow> outcome \<Rightarrow> bool"
  for glove_embeddings :: table
where
  run_raise: "process_text glove_embeddings document (Inl err) \<Longrightarrow>
     run_script glove_embeddings document ([], Some err)"
| run_score: "process_text glove_embeddings document (Inr connections) \<Longrightarrow>
     scoring_loop glove_embeddings connections 0 (split_lines document) r \<Longrightarrow>
     run_script glove_embeddings document r"

section \<open>Arithmetic of the numeric values\<close>

lemma overflow_threshold_ge: "2 ^ 1023 \<le> overflow_threshold"
proof -
  have "(2::real) ^ 970 \<le> 2 ^ 1023" by (rule power_increasing) simp_all
  moreover have "(2::real) ^ 1024 = 2 * 2 ^ 1023" by simp
  ultimately show ?thesis unfolding overflow_threshold_def by linarith
qed

lemma overflow_threshold_le: "overflow_threshold \<le> 2 ^ 1024"
  unfolding overflow_threshold_def by simp

lemma overflow_small: "\<bar>x\<bar> \<le> 2 ^ 64 \<Longrightarrow> overflow x = Fin x"
proof -
  assume a: "\<bar>x\<bar> \<le> 2 ^ 64"
  have "(2::real) ^ 64 < 2 ^ 1023" by (rule power_strict_increasing) simp_all
  with a overflow_threshold_ge have "x < overflow_threshold" "- overflow_threshold < x" by linarith+
  then show ?thesis by (simp add: overflow_def)
qed

lemma overflow_0 [simp]: "overflow 0 = Fin 0"
  by (rule overflow_small) simp

lemma overflow_nonneg:
  "0 \<le> x \<Longrightarrow> overflow x = (if overflow_threshold \<le> x then PInf else Fin x)"
  using overflow_threshold_ge by (auto simp: overflow_def intro: order_trans [of _ "2 ^ 1023"] dest: order_trans)

lemma fl_add_NaN_right [simp]: "fl_add x NaN = NaN"
  by (cases x) simp_all

text \<open>Partial sums of non-negative values grow, so the sum overflows exactly when the total does.\<close>

lemma foldl_fl_add_nonneg:
  assumes "0 \<le> a" "\<forall>x\<in>set xs. 0 \<le> x"
  shows "foldl fl_add (overflow a) (map Fin xs) = overflow (a + sum_list xs)"
  using assms
proof (induction xs arbitrary: a)
  case Nil
  then show ?case by simp
next
  case (Cons x xs)
  then have x: "0 \<le> x" and ax: "0 \<le> a + x" by simp_all
  have "fl_add (overflow a) (Fin x) = overflow (a + x)"
    using Cons(2) x ax by (auto simp: overflow_nonneg)
  then show ?case using Cons.IH [OF ax] Cons(3) by (simp add: add.assoc)
qed

lemma np_sum_nonneg:
  assumes "\<forall>x\<in>set xs. 0 \<le> x"
  shows "np_sum (map Fin xs) = overflow (sum_list xs)"
  using foldl_fl_add_nonneg [of 0 xs] assms by (simp add: np_sum_def)

section \<open>Entropy of a weight sequence\<close>

lemma ln_lower:
  assumes "0 < (y::real)"
  shows "1 - 1 / y \<le> ln y"
proof -
  have iy: "0 < 1 / y" using assms by simp
  have l: "ln (1 / y) = - ln y" using assms by (simp add: ln_div)
  from ln_le_minus_one [OF iy] l show "1 - 1 / y \<le> ln y" by simp
qed

lemma ln_2_bounds: "1 / 2 \<le> ln (2::real)" "ln (2::real) < 1"
  using ln_lower [of 2] ln_2_less_1 by simp_all

lemma entr_term_bounds:
  assumes "0 \<le> (y::real)" "y \<le> 1"
  shows "0 \<le> (if 0 < y then - y * ln y else 0)" "(if 0 < y then - y * ln y else 0) \<le> 1"
proof -
  show "0 \<le> (if 0 < y then - y * ln y else 0)"
    using assms by (auto simp: mult_nonneg_nonpos)
  show "(if 0 < y then - y * ln y else 0) \<le> 1"
  proof (cases "0 < y")
    case True
    have "y * (1 - 1 / y) \<le> y * ln y"
      using ln_lower [OF True] True by (intro mult_left_mono) simp_all
    moreover have "y * (1 - 1 / y) = y - 1" using True by (simp add: field_simps)
    ultimately show ?thesis using True assms by simp
  next
    case False
    then show ?thesis by simp
  qed
qed

lemma overflow_unit: "0 \<le> x \<Longrightarrow> x \<le> 1 \<Longrightarrow> overflow x = Fin x"
proof (rule overflow_small)
  assume "0 \<le> x" "x \<le> 1"
  moreover have "(1::real) \<le> 2 ^ 64" by simp
  ultimately show "\<bar>x\<bar> \<le> 2 ^ 64" by linarith
qed

lemma entr_probability:
  assumes "0 \<le> y" "y \<le> 1"
  shows "entr (Fin y) = Fin (if 0 < y then - y * ln y else 0)"
proof (cases "0 < y")
  case True
  have "overflow (- y * ln y) = Fin (- y * ln y)"
    using entr_term_bounds [OF assms] True by (intro overflow_unit) simp_all
  then show ?thesis using True by simp
next
  case False
  then show ?thesis using assms by simp
qed

lemma length_bound: "length xs < 2 ^ 63 \<Longrightarrow> real (length xs) \<le> 2 ^ 63"
proof -
  assume "length xs < 2 ^ 63"
  then have "real (length xs) < real (2 ^ 63)" by (simp only: of_nat_less_iff)
  then show ?thesis by simp
qed

text \<open>When the weights' sum overflows, every weight normalises to 0 and the entropy is 0.\<close>

lemma entropy_sum_overflows:
  assumes nn: "\<forall>x\<in>set xs. 0 \<le> x" and ov: "overflow_threshold \<le> sum_list xs"
  shows "entropy (map Fin xs) 2 = Inr (Fin 0)"
proof -
  have s: "np_sum (map Fin xs) = PInf"
    using np_sum_nonneg [OF nn] ov by (simp add: overflow_def)
  have "np_sum (map Fin (map (\<lambda>x. 0) xs)) = overflow (sum_list (map (\<lambda>x. 0) xs))"
    by (rule np_sum_nonneg) simp
  moreover have "map entr (map (\<lambda>p. fl_div p PInf) (map Fin xs)) = map Fin (map (\<lambda>x. 0) xs)"
    by simp
  ultimately have "np_sum (map entr (map (\<lambda>p. fl_div p PInf) (map Fin xs))) = Fin 0"
    by (simp only: sum_list_triv) simp
  then show ?thesis by (simp add: entropy_def s Let_def del: map_map)
qed

text \<open>Otherwise the weights normalise to probabilities, whose entropy is finite.\<close>

lemma entropy_weights:
  assumes nn: "\<forall>x\<in>set xs. 0 \<le> x" and S: "0 < sum_list xs"
    and nov: "sum_list xs < overflow_threshold" and len: "length xs < 2 ^ 63"
  shows "\<exists>H. entropy (map Fin xs) 2 = Inr (Fin (H / ln 2)) \<and> 0 \<le> H \<and> H \<le> 2 ^ 63 \<and>
     H = sum_list (map (\<lambda>x. if 0 < x / sum_list xs
                 then - (x / sum_list xs) * ln (x / sum_list xs) else 0) xs)"
proof -
  let ?S = "sum_list xs"
  define h where "h = (\<lambda>x. if 0 < x / ?S then - (x / ?S) * ln (x / ?S) else 0)"
  define H where "H = sum_list (map h xs)"
  have s: "np_sum (map Fin xs) = Fin ?S"
    using np_sum_nonneg [OF nn] nov S by (simp add: overflow_def)
  have q: "0 \<le> x / ?S \<and> x / ?S \<le> 1" if "x \<in> set xs" for x
  proof -
    have "x \<le> ?S" using nn that by (intro member_le_sum_list) auto
    then show ?thesis using nn that S by simp
  qed
  have hb: "0 \<le> h x \<and> h x \<le> 1" if "x \<in> set xs" for x
    unfolding h_def using entr_term_bounds [of "x / ?S"] q [OF that] by blast
  have e: "map entr (map (\<lambda>p. fl_div p (Fin ?S)) (map Fin xs)) = map Fin (map h xs)"
  proof (simp only: map_map comp_def, rule map_cong [OF refl])
    fix x assume x: "x \<in> set xs"
    have "overflow (x / ?S) = Fin (x / ?S)"
      using q [OF x] by (intro overflow_unit) simp_all
    then have "fl_div (Fin x) (Fin ?S) = Fin (x / ?S)"
      using S by simp
    then show "entr (fl_div (Fin x) (Fin ?S)) = Fin (h x)"
      unfolding h_def using entr_probability [of "x / ?S"] q [OF x] by simp
  qed
  have H0: "0 \<le> H" unfolding H_def
  proof (rule sum_list_nonneg)
    fix v assume "v \<in> set (map h xs)"
    then obtain x where "x \<in> set xs" "v = h x" by auto
    then show "0 \<le> v" using hb by simp
  qed
  have Hn: "H \<le> real (length xs)"
  proof -
    have "sum_list (map h xs) \<le> sum_list (map (\<lambda>x. 1) xs)"
      using hb by (intro sum_list_mono) simp
    then show ?thesis by (simp add: H_def sum_list_triv)
  qed
  have "np_sum (map Fin (map h xs)) = overflow H" unfolding H_def
  proof (rule np_sum_nonneg, rule ballI)
    fix v assume "v \<in> set (map h xs)"
    then obtain x where "x \<in> set xs" "v = h x" by auto
    then show "0 \<le> v" using hb by simp
  qed
  moreover have "overflow H = Fin H"
  proof (rule overflow_small)
    have "(2::real) ^ 63 \<le> 2 ^ 64" by simp
    then show "\<bar>H\<bar> \<le> 2 ^ 64" using H0 Hn length_bound [OF len] by linarith
  qed
  ultimately have vs: "np_sum (map entr (map (\<lambda>p. fl_div p (Fin ?S)) (map Fin xs))) = Fin H"
    by (simp only: e)
  have d0: "0 \<le> H / ln 2" using H0 by simp
  have "H / ln 2 \<le> H / (1 / 2)"
    using H0 ln_2_bounds(1) by (intro divide_left_mono) simp_all
  then have "H / ln 2 \<le> 2 ^ 64" using Hn length_bound [OF len] by simp
  with d0 have "overflow (H / ln 2) = Fin (H / ln 2)"
    by (intro overflow_small) simp
  then have "entropy (map Fin xs) 2 = Inr (Fin (H / ln 2))"
    by (simp add: entropy_def s vs Let_def del: map_map)
  then show ?thesis using H0 Hn length_bound [OF len] unfolding H_def h_def by auto
qed

lemma entropy_nonneg_finite:
  assumes nn: "\<forall>x\<in>set xs. 0 \<le> x" and S: "0 < sum_list xs" and len: "length xs < 2 ^ 63"
  shows "\<exists>e. entropy (map Fin xs) 2 = Inr (Fin e) \<and> 0 \<le> e \<and> e \<le> 2 ^ 64"
proof (cases "overflow_threshold \<le> sum_list xs")
  case True
  then show ?thesis using entropy_sum_overflows [OF nn] by auto
next
  case False
  then obtain H where H: "entropy (map Fin xs) 2 = Inr (Fin (H / ln 2))" "0 \<le> H" "H \<le> 2 ^ 63"
    using entropy_weights [OF nn S _ len] by auto
  have "H / ln 2 \<le> H / (1 / 2)"
    using H(2) ln_2_bounds(1) by (intro divide_left_mono) simp_all
  then have "H / ln 2 \<le> 2 ^ 64" using H(3) by simp
  moreover have "0 \<le> H / ln 2" using H(2) by simp
  ultimately show ?thesis using H(1) by blast
qed

lemma foldl_fl_add_NaN: "foldl fl_add NaN xs = NaN"
  by (induction xs) simp_all

lemma np_sum_replicate_NaN: "np_sum (replicate (Suc n) NaN) = NaN"
  by (simp add: np_sum_def foldl_fl_add_NaN)

lemma entropy_zeros: "entropy (replicate (Suc n) (Fin 0)) 2 = Inr NaN"
proof -
  have "np_sum (map Fin (replicate (Suc n) 0)) = overflow (sum_list (replicate (Suc n) 0))"
    by (rule np_sum_nonneg) simp
  then have s: "np_sum (replicate (Suc n) (Fin 0)) = Fin 0"
    by (simp add: sum_list_replicate)
  have "map entr (map (\<lambda>p. fl_div p (Fin 0)) (replicate (Suc n) (Fin 0))) =
      replicate (Suc n) NaN" by simp
  then show ?thesis
    by (simp only: entropy_def Let_def s np_sum_replicate_NaN) simp
qed

lemma information_of_statement_zeros:
  assumes "map snd doc = replicate (Suc n) (Fin 0)"
  shows "information_of_statement doc p = Inr NaN"
proof -
  have "entropy (map snd doc) 2 = Inr NaN"
    by (simp only: assms entropy_zeros)
  then show ?thesis
    by (simp add: information_of_statement_def fl_sub_def entropy_def Let_def split: sum.splits)
qed

lemma max_entropy_finite:
  assumes "0 < n" "n < 2 ^ 63" "0 < p"
  shows "\<exists>m. entropy (replicate n (Fin p)) 2 = Inr (Fin m) \<and> 0 \<le> m \<and> m \<le> 2 ^ 64"
proof -
  have "0 < sum_list (replicate n p)" using assms by (simp add: sum_list_replicate)
  moreover have "\<forall>x\<in>set (replicate n p). 0 \<le> x" using assms by simp
  moreover have "length (replicate n p) < 2 ^ 63" using assms by simp
  ultimately have "\<exists>m. entropy (map Fin (replicate n p)) 2 = Inr (Fin m) \<and> 0 \<le> m \<and> m \<le> 2 ^ 64"
    by (intro entropy_nonneg_finite)
  then show ?thesis by simp
qed

lemma max_entropy_overflows:
  assumes "0 < p" "overflow_threshold \<le> real n * p"
  shows "entropy (replicate n (Fin p)) 2 = Inr (Fin 0)"
proof -
  have "overflow_threshold \<le> sum_list (replicate n p)"
    using assms by (simp add: sum_list_replicate)
  moreover have "\<forall>x\<in>set (replicate n p). 0 \<le> x" using assms by simp
  ultimately have "entropy (map Fin (replicate n p)) 2 = Inr (Fin 0)"
    by (intro entropy_sum_overflows)
  then show ?thesis by simp
qed

lemma entropy_one_one: "entropy [Fin 1, Fin 1] 2 = Inr (Fin 1)"
proof -
  have "\<exists>H. entropy (map Fin [1, 1]) 2 = Inr (Fin (H / ln 2)) \<and> 0 \<le> H \<and> H \<le> 2 ^ 63 \<and>
     H = sum_list (map (\<lambda>x. if 0 < x / sum_list [1, 1 :: real]
                 then - (x / sum_list [1, 1]) * ln (x / sum_list [1, 1]) else 0) [1, 1])"
    by (rule entropy_weights) (simp_all add: overflow_threshold_def)
  then show ?thesis by (simp add: ln_div)
qed

lemma entropy_half_half: "entropy [Fin (1 / 2), Fin (1 / 2)] 2 = Inr (Fin 1)"
proof -
  have "\<exists>H. entropy (map Fin [1 / 2, 1 / 2]) 2 = Inr (Fin (H / ln 2)) \<and> 0 \<le> H \<and> H \<le> 2 ^ 63 \<and>
     H = sum_list (map (\<lambda>x. if 0 < x / sum_list [1 / 2, 1 / 2 :: real]
                 then - (x / sum_list [1 / 2, 1 / 2]) * ln (x / sum_list [1 / 2, 1 / 2]) else 0)
           [1 / 2, 1 / 2])"
    by (rule entropy_weights) (simp_all add: overflow_threshold_def)
  then show ?thesis by (simp add: ln_div)
qed


subsection \<open>Two weights of 1: one bit of entropy, and the score at two baselines\<close>

lemma score_baseline_overflows:
  assumes "0 < p" "overflow_threshold \<le> 2 * p"
  shows "information_of_statement [(d1, Fin 1), (d2, Fin 1)] (Fin p) = Inr (Fin (- 1))"
proof -
  have "entropy (replicate 2 (Fin p)) 2 = Inr (Fin 0)"
    using assms by (intro max_entropy_overflows) simp_all
  then have "entropy [Fin p, Fin p] 2 = Inr (Fin 0)" by (simp add: numeral_2_eq_2)
  then show ?thesis
    by (simp add: information_of_statement_def entropy_one_one fl_sub_def overflow_small)
qed

lemma score_at_huge:
  "information_of_statement [(d1, Fin 1), (d2, Fin 1)] (Fin (2 ^ 1023)) = Inr (Fin (- 1))"
proof -
  have a: "0 < (2::real) ^ 1023" by simp
  have b: "overflow_threshold \<le> 2 * 2 ^ 1023" using overflow_threshold_le by simp
  show ?thesis by (rule score_baseline_overflows [OF a b])
qed

lemma score_at_half:
  "information_of_statement [(d1, Fin 1), (d2, Fin 1)] (Fin (1 / 2)) = Inr (Fin 0)"
  by (simp add: information_of_statement_def entropy_one_one entropy_half_half fl_sub_def)

section \<open>Sorting the distances\<close>

lemma map_sort_key: "map f (sort_key f xs) = sort (map f xs)"
  by (rule properties_for_sort [symmetric]) simp_all

lemma map_nth_argsort: "map (\<lambda>i. ds ! i) (argsort ds) = sort ds"
  by (simp add: argsort_def map_sort_key map_nth)

lemma length_argsort: "length (argsort ds) = length ds"
  by (simp add: argsort_def)

lemma selected_distances:
  "map (\<lambda>i. ds ! i) (slice_to (argsort ds) k) =
     take (if 0 \<le> k then nat k else nat (int (length ds) + k)) (sort ds)"
  by (simp add: slice_to_def take_map [symmetric] map_nth_argsort length_argsort)

lemma euclidean_norm_diff:
  assumes "length a = length t"
  shows "euclidean_norm (map2 (-) a t) = euclidean_distance a t"
proof -
  have "sum_list (map (\<lambda>x. x\<^sup>2) (map2 (-) a t)) = (\<Sum>i = 0..<length t. (a ! i - t ! i)\<^sup>2)"
    using assms by (simp add: sum_list_sum_nth)
  then show ?thesis by (simp add: euclidean_norm_def euclidean_distance_def atLeast0LessThan)
qed

lemma distances_to_same_dim:
  assumes "\<forall>a\<in>set arrays. length a = length target"
  shows "distances_to arrays target = Inr (map (\<lambda>a. euclidean_distance a target) arrays)"
  using assms by (induction arrays) (simp_all add: np_sub_def euclidean_norm_diff)

lemma find_k_closest_avg_sorted:
  assumes "distances_to arrays target = Inr ds"
  shows "find_k_closest_avg arrays target k =
     Inr (np_average (take (if 0 \<le> k then nat k else nat (int (length ds) + k)) (sort ds)))"
  using assms by (simp add: find_k_closest_avg_def selected_distances Let_def)




lemma upt_2: "[0..<2] = [0, Suc 0]"
  by (simp add: upt_rec)

section \<open>Claims about the density estimator\<close>






section \<open>Claims about the scorer\<close>

text \<open>
  C2 (as stated): for the density-proxy sequence \<open>[0, 0]\<close> the scorer returns exactly 0.
  The weights sum to zero, so the normalisation divides 0 by 0 and the entropy is NaN.
\<close>

theorem information_of_statement_zero_weights_counterexample:
  "information_of_statement [([-1, 0 :: real], Fin 0), ([1, -1], Fin 0)] (Fin (1 / 3)) \<noteq> Inr (Fin 0)"
  by (simp add: information_of_statement_def entropy_def np_sum_def fl_sub_def Let_def
      split: sum.splits)

text \<open>
  C2 (amended): in the scenario of the specification (corpus equal to the paragraph's
  two transition vectors, \<open>k = 1\<close>) both density proxies are 0, and for the proxy
  sequence \<open>[0, 0]\<close> the scorer returns NaN, whatever the vectors and the baseline
  probability.
\<close>

theorem information_of_statement_zero_weights:
  "find_k_closest_avg [[-1, 0], [1, -1]] [-1, 0] 1 = Inr (Fin 0) \<and>
   find_k_closest_avg [[-1, 0], [1, -1]] [1, -1] 1 = Inr (Fin 0) \<and>
   information_of_statement [(d1, Fin 0), (d2, Fin 0)] p = Inr NaN"
  by (simp add: find_k_closest_avg_def np_sub_def euclidean_norm_def argsort_def slice_to_def
      np_average_def upt_2 information_of_statement_def entropy_def np_sum_def fl_sub_def Let_def
      split: sum.splits)

text \<open>
  C3 (as stated): for the empty sequence the scorer fails with EmptyInput. Both entropies
  are empty sums, and the call returns their difference.
\<close>

theorem information_of_statement_empty_counterexample:
  "information_of_statement ([] :: (vec \<times> fl) list) (Fin 1) = Inr (Fin 0)"
  by (simp add: information_of_statement_def entropy_def np_sum_def fl_sub_def)

text \<open>
  C3 (amended): for the empty sequence the scorer returns 0, for every baseline
  probability.
\<close>

theorem information_of_statement_empty:
  "information_of_statement [] p = Inr (Fin 0)"
  by (simp add: information_of_statement_def entropy_def np_sum_def fl_sub_def)

text \<open>
  C4 (as stated): for every non-empty sequence of non-negative weights the score is
  \<open>\<ge> 0\<close>, with equality exactly when all weights are equal. Three zero weights are
  non-negative and equal, and their score is NaN, which is neither \<open>\<ge> 0\<close> nor 0. Two
  weights of 1 with the baseline probability \<open>2^1023\<close> score \<open>-1\<close>: the sum of the two
  baseline weights overflows, so the baseline entropy is 0.
\<close>

theorem information_of_statement_sign_counterexample:
  "information_of_statement [([] :: vec, Fin 0), ([], Fin 0), ([], Fin 0)] (Fin 1) = Inr NaN \<and>
   \<not> fl_le (Fin 0) NaN \<and>
   information_of_statement [([] :: vec, Fin 1), ([], Fin 1)] (Fin (2 ^ 1023)) = Inr (Fin (- 1)) \<and>
   \<not> fl_le (Fin 0) (Fin (- 1))"
proof -
  have "information_of_statement [([] :: vec, Fin 0), ([], Fin 0), ([], Fin 0)] (Fin 1) = Inr NaN"
    by (rule information_of_statement_zeros [of _ 2]) (simp add: numeral_2_eq_2)
  then show ?thesis using score_at_huge [of "[] :: vec" "[]"] by simp
qed

text \<open>
  C4 (amended): for every non-empty sequence (of fewer than \<open>2^63\<close> items, as every
  Python list is) of non-negative weights and a positive baseline probability, the score
  is NaN when all weights are zero and a finite number otherwise. Its sign is not
  promised.
\<close>

theorem information_of_statement_finite:
  assumes w: "map snd doc = map Fin xs" and ne: "doc \<noteq> []" and len: "length doc < 2 ^ 63"
    and nn: "\<forall>x\<in>set xs. 0 \<le> x" and p: "0 < p"
  shows "((\<forall>x\<in>set xs. x = 0) \<longrightarrow> information_of_statement doc (Fin p) = Inr NaN) \<and>
         ((\<exists>x\<in>set xs. 0 < x) \<longrightarrow> (\<exists>s. information_of_statement doc (Fin p) = Inr (Fin s)))"
proof (intro conjI impI)
  have l: "length doc = length xs" using w by (metis length_map)
  {
    assume z: "\<forall>x\<in>set xs. x = 0"
    from ne l obtain n where n: "length xs = Suc n" by (cases xs) auto
    from z have "replicate (length xs) 0 = xs" by (intro replicate_length_same) simp
    then have "map Fin xs = replicate (Suc n) (Fin 0)"
      using n by (metis map_replicate)
    then show "information_of_statement doc (Fin p) = Inr NaN"
      using w by (intro information_of_statement_zeros [of _ n]) simp
  }
  {
    assume "\<exists>x\<in>set xs. 0 < x"
    then obtain x where x: "x \<in> set xs" "0 < x" by blast
    have "x \<le> sum_list xs" using nn x(1) by (intro member_le_sum_list) auto
    then have S: "0 < sum_list xs" using x(2) by simp
    have lx: "length xs < 2 ^ 63" using len l by simp
    from entropy_nonneg_finite [OF nn S lx] w
    obtain e where e: "entropy (map snd doc) 2 = Inr (Fin e)" "0 \<le> e" "e \<le> 2 ^ 64" by auto
    from max_entropy_finite [of "length doc" p] ne len p
    obtain m where m: "entropy (replicate (length doc) (Fin p)) 2 = Inr (Fin m)"
      "0 \<le> m" "m \<le> 2 ^ 64" by auto
    have "\<bar>m - e\<bar> \<le> 2 ^ 64" using e(2,3) m(2,3) by linarith
    then have "fl_sub (Fin m) (Fin e) = Fin (m - e)"
      by (simp add: fl_sub_def overflow_small)
    then show "\<exists>s. information_of_statement doc (Fin p) = Inr (Fin s)"
      by (simp add: information_of_statement_def e(1) m(1))
  }
qed

text \<open>Weights 1 and 3 have a finite score.\<close>

theorem information_of_statement_finite_witness:
  "map snd [([] :: vec, Fin 1), ([], Fin 3)] = map Fin [1, 3] \<and>
   [([] :: vec, Fin 1), ([], Fin 3)] \<noteq> [] \<and>
   length [([] :: vec, Fin 1), ([], Fin 3)] < 2 ^ 63 \<and>
   (0 :: real) \<le> 1 \<and> (0 :: real) \<le> 3 \<and> (0 :: real) < 1 / 2 \<and>
   (\<exists>s. information_of_statement [([] :: vec, Fin 1), ([], Fin 3)] (Fin (1 / 2)) = Inr (Fin s))"
proof -
  have "((\<forall>x\<in>set [1, 3 :: real]. x = 0) \<longrightarrow>
          information_of_statement [([] :: vec, Fin 1), ([], Fin 3)] (Fin (1 / 2)) = Inr NaN) \<and>
        ((\<exists>x\<in>set [1, 3 :: real]. 0 < x) \<longrightarrow>
          (\<exists>s. information_of_statement [([] :: vec, Fin 1), ([], Fin 3)] (Fin (1 / 2)) = Inr (Fin s)))"
    by (rule information_of_statement_finite) simp_all
  then show ?thesis by simp
qed

text \<open>
  C5 (as stated): the baseline probability is inert, the scores for any two positive
  values \<open>p\<close> and \<open>q\<close> agree. For two weights of 1 the score is \<open>-1\<close> with
  \<open>p = 2^1023\<close> and 0 with \<open>q = 1/2\<close>.
\<close>

theorem equal_vocab_probability_counterexample:
  "information_of_statement [([] :: vec, Fin 1), ([], Fin 1)] (Fin (2 ^ 1023)) \<noteq>
   information_of_statement [([] :: vec, Fin 1), ([], Fin 1)] (Fin (1 / 2))"
proof -
  have "information_of_statement [([] :: vec, Fin 1), ([], Fin 1)] (Fin (2 ^ 1023)) = Inr (Fin (- 1))"
    by (rule score_at_huge)
  moreover have "information_of_statement [([] :: vec, Fin 1), ([], Fin 1)] (Fin (1 / 2)) = Inr (Fin 0)"
    by (rule score_at_half)
  ultimately show ?thesis by simp
qed

text \<open>
  C5 (amended): the baseline probability is not inert. For a sequence of at least two
  items and \<open>p \<ge> 2^1023\<close>, where already \<open>p + p\<close> overflows, the baseline entropy is
  0 rather than \<open>log\<^sub>2 n\<close>, and the score is 0 minus the entropy of the weights.
\<close>

theorem equal_vocab_probability_overflow:
  assumes "2 \<le> length doc" and "2 ^ 1023 \<le> p"
  shows "entropy (replicate (length doc) (Fin p)) 2 = Inr (Fin 0) \<and>
         information_of_statement doc (Fin p) =
           (case entropy (map snd doc) 2 of
              Inl e \<Rightarrow> Inl e
            | Inr ent \<Rightarrow> Inr (fl_sub (Fin 0) ent))"
proof -
  have p: "0 < p" using assms(2) by (rule less_le_trans [rotated]) simp
  have "(2::real) ^ 1024 = 2 * 2 ^ 1023" by simp
  also have "\<dots> \<le> 2 * p" using assms(2) by simp
  also have "\<dots> \<le> real (length doc) * p"
    using assms(1) p by (intro mult_right_mono) simp_all
  finally have "overflow_threshold \<le> real (length doc) * p"
    using overflow_threshold_le by linarith
  with p have "entropy (replicate (length doc) (Fin p)) 2 = Inr (Fin 0)"
    by (rule max_entropy_overflows)
  then show ?thesis by (simp add: information_of_statement_def split: sum.splits)
qed

text \<open>Two weights of 1 and \<open>p = 2^1023\<close>: the baseline is 0 and the score is \<open>-1\<close>.\<close>

theorem equal_vocab_probability_overflow_witness:
  "2 \<le> length [([] :: vec, Fin 1), ([], Fin 1)] \<and> (2 :: real) ^ 1023 \<le> 2 ^ 1023 \<and>
   entropy (replicate (length [([] :: vec, Fin 1), ([], Fin 1)]) (Fin (2 ^ 1023))) 2 = Inr (Fin 0) \<and>
   information_of_statement [([] :: vec, Fin 1), ([], Fin 1)] (Fin (2 ^ 1023)) = Inr (Fin (- 1))"
proof -
  have a: "2 \<le> length [([] :: vec, Fin 1), ([], Fin 1)]" by simp
  have b: "(2 :: real) ^ 1023 \<le> 2 ^ 1023" by simp
  have "fl_sub (Fin 0) (Fin 1) = Fin (- 1)" by (simp add: fl_sub_def overflow_small)
  moreover have "entropy (map snd [([] :: vec, Fin 1), ([], Fin 1)]) 2 = Inr (Fin 1)"
    by (simp add: entropy_one_one)
  ultimately show ?thesis
    using equal_vocab_probability_overflow [OF a b] a b by (simp only: sum.case)
qed

section \<open>The embedding lookup\<close>

lemma lookup_total: "\<exists>v. get_glove_embedding ge w v"
proof (cases "ge w")
  case None
  have "randint 0 600 0" by (simp add: randint_def)
  with None show ?thesis by (blast intro: fallback)
next
  case (Some v)
  then show ?thesis by (blast intro: found)
qed

text \<open>
  C10: for a token absent from the table, every vector the lookup may return has exactly
  50 components, all equal to one integer between 0 and 600 inclusive, and the lookup
  does return such a vector; its dimension is that of the 50-dimensional GloVe vectors.
\<close>

theorem fallback_vector:
  assumes "glove_embeddings word = None"
  shows "(\<exists>v. get_glove_embedding glove_embeddings word v) \<and>
         (\<forall>v. get_glove_embedding glove_embeddings word v \<longrightarrow>
            length v = 50 \<and> (\<exists>r::int. 0 \<le> r \<and> r \<le> 600 \<and> v = replicate 50 (real_of_int r)))"
proof (intro conjI allI impI)
  show "\<exists>v. get_glove_embedding glove_embeddings word v" by (rule lookup_total)
next
  fix v assume "get_glove_embedding glove_embeddings word v"
  then obtain r where "randint 0 600 r" "v = replicate 50 (real_of_int r)"
    using assms by (auto elim: get_glove_embedding.cases)
  then show "length v = 50" and "\<exists>r::int. 0 \<le> r \<and> r \<le> 600 \<and> v = replicate 50 (real_of_int r)"
    by (auto simp: randint_def)
qed

text \<open>With an empty table every word takes the fallback.\<close>

theorem fallback_vector_witness:
  "(Map.empty :: table) [120] = None \<and>
   (\<exists>v. get_glove_embedding Map.empty [120] v \<and> length v = 50)"
  using fallback_vector [of Map.empty "[120]"] by auto

section \<open>The transition builder's result\<close>

lemma get_connections_total: "\<exists>r. get_connections ge ws r"
proof (induction ws rule: induct_list012)
  case 1
  show ?case by (rule exI, rule gc_done) simp
next
  case (2 w)
  show ?case by (rule exI, rule gc_done) simp
next
  case (3 curr_w next_w rest)
  obtain e1 e2 where e: "get_glove_embedding ge curr_w e1" "get_glove_embedding ge next_w e2"
    using lookup_total by blast
  from 3(2) obtain r where r: "get_connections ge (next_w # rest) r" by blast
  show ?case
  proof (cases "np_sub e1 e2")
    case (Inl err)
    with e show ?thesis by (blast intro: gc_raise)
  next
    case (Inr c)
    with e r show ?thesis by (cases r) ((blast intro: gc_later gc_append)+)
  qed
qed

lemma get_connections_shape:
  assumes "get_connections ge paragraph r"
    and "\<forall>w\<in>set paragraph. \<forall>v. get_glove_embedding ge w v \<longrightarrow> length v = D"
  shows "\<exists>cs. r = Inr cs \<and> length cs = length paragraph - 1 \<and>
     (\<forall>i<length cs. \<exists>e1 e2. get_glove_embedding ge (paragraph ! i) e1 \<and>
        get_glove_embedding ge (paragraph ! Suc i) e2 \<and> cs ! i = map2 (-) e1 e2)"
  using assms
proof (induction rule: get_connections.induct)
  case (gc_done ws)
  then show ?case by simp
next
  case (gc_raise curr_w e1 next_w e2 err rest)
  then have "length e1 = length e2" by simp
  with gc_raise(3) show ?case by (simp add: np_sub_def)
next
  case (gc_append curr_w e1 next_w e2 connection rest connections)
  then have l: "length e1 = length e2" by simp
  with gc_append(3) have c: "connection = map2 (-) e1 e2" by (simp add: np_sub_def)
  from gc_append have IH: "length connections = length (next_w # rest) - 1"
    "\<forall>i<length connections. \<exists>e1 e2. get_glove_embedding ge ((next_w # rest) ! i) e1 \<and>
        get_glove_embedding ge ((next_w # rest) ! Suc i) e2 \<and> connections ! i = map2 (-) e1 e2"
    by auto
  have "\<exists>e1 e2. get_glove_embedding ge ((curr_w # next_w # rest) ! i) e1 \<and>
        get_glove_embedding ge ((curr_w # next_w # rest) ! Suc i) e2 \<and>
        (connection # connections) ! i = map2 (-) e1 e2"
    if "i < length (connection # connections)" for i
  proof (cases i)
    case 0
    then show ?thesis using gc_append(1,2) c by auto
  next
    case (Suc j)
    then have "j < length connections" using that by simp
    with IH(2) Suc show ?thesis by simp
  qed
  then show ?case using IH(1) by simp
next
  case (gc_later curr_w e1 next_w e2 connection rest err)
  then show ?case by auto
qed

text \<open>
  C7: when the lookups of the tokens all have one dimension, \<open>get_connections\<close> on a
  token sequence of length \<open>n\<close> returns, without raising, exactly \<open>n - 1\<close> transition
  vectors (none for \<open>n \<le> 1\<close>), and element \<open>i\<close> is the componentwise difference of an
  embedding of token \<open>i\<close> and an embedding of token \<open>i + 1\<close>.
\<close>

theorem get_connections_transitions:
  assumes "\<forall>w\<in>set paragraph. \<forall>v. get_glove_embedding glove_embeddings w v \<longrightarrow> length v = D"
  shows "(\<exists>r. get_connections glove_embeddings paragraph r) \<and>
     (\<forall>r. get_connections glove_embeddings paragraph r \<longrightarrow>
        (\<exists>cs. r = Inr cs \<and> length cs = length paragraph - 1 \<and>
          (\<forall>i<length cs. \<exists>e1 e2. get_glove_embedding glove_embeddings (paragraph ! i) e1 \<and>
             get_glove_embedding glove_embeddings (paragraph ! Suc i) e2 \<and>
             cs ! i = map2 (-) e1 e2)))"
  using get_connections_total get_connections_shape [OF _ assms] by blast

text \<open>
  The table \<open>a \<mapsto> [0,0]\<close>, \<open>b \<mapsto> [1,0]\<close>, \<open>c \<mapsto> [0,1]\<close> and the tokens
  \<open>a, b, c\<close>: the transitions are \<open>[-1,0]\<close> and \<open>[1,-1]\<close>.
\<close>

theorem get_connections_transitions_witness:
  "get_connections [[97] \<mapsto> [0, 0], [98] \<mapsto> [1, 0], [99] \<mapsto> [0, 1]]
          [[97], [98], [99]] (Inr [[-1, 0], [1, -1]])"
proof -
  define ge :: table where "ge = [[97] \<mapsto> [0, 0], [98] \<mapsto> [1, 0], [99] \<mapsto> [0, 1]]"
  have a: "get_glove_embedding ge [97] v \<longleftrightarrow> v = [0, 0]"
    and b: "get_glove_embedding ge [98] v \<longleftrightarrow> v = [1, 0]"
    and c: "get_glove_embedding ge [99] v \<longleftrightarrow> v = [0, 1]" for v
    by (auto simp: get_glove_embedding.simps ge_def)
  have "\<forall>w\<in>set [[97], [98], [99]]. \<forall>v. get_glove_embedding ge w v \<longrightarrow> length v = 2"
    using a b c by auto
  from get_connections_transitions [OF this]
  have ex: "\<exists>r. get_connections ge [[97], [98], [99]] r"
    and sh: "\<And>r. get_connections ge [[97], [98], [99]] r \<Longrightarrow>
        \<exists>cs. r = Inr cs \<and> length cs = length [[97], [98], [99 :: nat]] - 1 \<and>
          (\<forall>i<length cs. \<exists>e1 e2. get_glove_embedding ge ([[97], [98], [99]] ! i) e1 \<and>
             get_glove_embedding ge ([[97], [98], [99]] ! Suc i) e2 \<and> cs ! i = map2 (-) e1 e2)"
    by blast+
  from ex obtain r where r: "get_connections ge [[97], [98], [99]] r" ..
  from sh [OF r] obtain cs where cs: "r = Inr cs" "length cs = 2"
    and t: "\<And>i. i < length cs \<Longrightarrow> \<exists>e1 e2. get_glove_embedding ge ([[97], [98], [99]] ! i) e1 \<and>
             get_glove_embedding ge ([[97], [98], [99]] ! Suc i) e2 \<and> cs ! i = map2 (-) e1 e2"
    by auto
  from t [of 0] cs(2) have c0: "cs ! 0 = [-1, 0]" by (simp add: a b)
  from t [of 1] cs(2) have c1: "cs ! 1 = [1, -1]" by (simp add: b c)
  from cs(2) obtain x y where xy: "cs = [x, y]"
    by (cases cs; cases "tl cs") auto
  with c0 c1 have "cs = [[-1, 0], [1, -1]]" by simp
  with r cs(1) show ?thesis by (simp add: ge_def)
qed

section \<open>Runs of the pipeline\<close>

inductive_cases gc_consE: "get_connections ge (a # b # rest) r"
inductive_cases pp_nilE: "process_paragraphs ge [] r"
inductive_cases pp_consE: "process_paragraphs ge (p # ps) r"
inductive_cases sl_nilE: "scoring_loop ge conns idx [] r"
inductive_cases sl_consE: "scoring_loop ge conns idx (d # ds) r"

lemma split_from_no_newline: "newline \<notin> set cs \<Longrightarrow> split_from cur cs = [cur @ cs]"
  by (induction cs arbitrary: cur) simp_all

lemma split_lines_no_newline: "newline \<notin> set doc \<Longrightarrow> split_lines doc = [doc]"
  by (simp add: split_lines_def split_from_no_newline)

subsection \<open>Every run has an outcome\<close>

lemma process_paragraphs_total: "\<exists>r. process_paragraphs ge ps r"
proof (induction ps)
  case Nil
  show ?case by (blast intro: pp_end)
next
  case (Cons p ps)
  then obtain r where r: "process_paragraphs ge ps r" by blast
  obtain g where g: "get_connections ge (chars p) g" using get_connections_total by blast
  show ?case
  proof (cases "length p < 100")
    case True
    with r show ?thesis by (blast intro: pp_continue)
  next
    case False
    show ?thesis
    proof (cases g)
      case (Inl err)
      with False g show ?thesis by (blast intro: pp_raise)
    next
      case (Inr cs)
      with False g r show ?thesis by (cases r) ((blast intro: pp_later pp_extend)+)
    qed
  qed
qed

lemma tokenized_probabilities_total: "\<exists>r. tokenized_probabilities ge p conns r"
proof -
  obtain g where g: "get_connections ge (chars p) g" using get_connections_total by blast
  then show ?thesis by (cases g) (blast intro: tp_raise tp_pairs)+
qed

lemma scoring_loop_total: "\<exists>r. scoring_loop ge conns idx ps r"
proof (induction ps arbitrary: idx)
  case Nil
  show ?case by (blast intro: sl_end)
next
  case (Cons p ps)
  obtain printed status where r: "scoring_loop ge conns (Suc idx) ps (printed, status)"
    using Cons [of "Suc idx"] by auto
  obtain t where t: "tokenized_probabilities ge p conns t"
    using tokenized_probabilities_total by blast
  show ?case
  proof (cases "length p < 100")
    case True
    with r show ?thesis by (blast intro: sl_continue)
  next
    case False
    show ?thesis
    proof (cases t)
      case (Inl err)
      with False t show ?thesis by (blast intro: sl_raise)
    next
      case (Inr probs)
      show ?thesis
      proof (cases "information_of_statement probs (Fin (1 / real (length p)))")
        case (Inl err)
        with False t Inr show ?thesis by (blast intro: sl_raise_score)
      next
        case (Inr score)
        with False t \<open>t = Inr probs\<close> r show ?thesis by (blast intro: sl_print)
      qed
    qed
  qed
qed

lemma run_script_total: "\<exists>r. run_script ge doc r"
proof -
  obtain c where c: "process_text ge doc c"
    using process_paragraphs_total by (auto simp: process_text_def)
  show ?thesis
  proof (cases c)
    case (Inl err)
    with c show ?thesis by (blast intro: run_raise)
  next
    case (Inr conns)
    obtain r where "scoring_loop ge conns 0 (split_lines doc) r"
      using scoring_loop_total by blast
    with c Inr show ?thesis by (blast intro: run_score)
  qed
qed

subsection \<open>A run on a two-paragraph document\<close>

lemma get_connections_replicate:
  assumes "ge w = Some v"
  shows "get_connections ge (replicate (Suc n) w) (Inr (replicate n (map2 (-) v v)))"
proof (induction n)
  case 0
  show ?case by (simp add: gc_done)
next
  case (Suc n)
  have l: "get_glove_embedding ge w v" using assms by (rule found)
  have "np_sub v v = Inr (map2 (-) v v)" by (simp add: np_sub_def)
  from gc_append [OF l l this, of "replicate n w" "replicate n (map2 (-) v v)"] Suc
  show ?case by simp
qed

lemma euclidean_distance_self: "euclidean_distance z z = 0"
  by (simp add: euclidean_distance_def)

lemma find_k_closest_avg_replicate:
  assumes "0 < m"
  shows "find_k_closest_avg (replicate m z) z 3 = Inr (Fin 0)"
proof -
  have d: "distances_to (replicate m z) z = Inr (replicate m 0)"
    using distances_to_same_dim [of "replicate m z" z] by (simp add: euclidean_distance_self)
  have "sort (replicate m (0 :: real)) = replicate m 0"
    by (rule sort_key_id_if_sorted) (simp add: sorted_replicate)
  then have "take 3 (sort (replicate m (0 :: real))) = replicate (min 3 m) 0" by simp
  moreover have "np_average (replicate (min 3 m) 0) = Fin 0"
    using assms by (simp add: np_average_def sum_list_replicate)
  ultimately show ?thesis
    using find_k_closest_avg_sorted [OF d, of 3] by simp
qed

lemma density_pairs_replicate:
  assumes "find_k_closest_avg conns d 3 = Inr a"
  shows "density_pairs conns (replicate n d) = Inr (replicate n (d, a))"
  using assms by (induction n) simp_all

lemma split_from_newline:
  "newline \<notin> set xs \<Longrightarrow> split_from cur (xs @ newline # ys) = (cur @ xs) # split_from [] ys"
  by (induction xs arbitrary: cur) simp_all

lemma split_lines_two:
  assumes "newline \<notin> set xs" "newline \<notin> set ys"
  shows "split_lines (xs @ newline # ys) = [xs, ys]"
  using assms by (simp add: split_lines_def split_from_newline split_from_no_newline)

text \<open>
  A run on the document \<open>"hi\n" + "a" * 100\<close> with \<open>a \<mapsto> [0]\<close> in the table: the
  99 transitions are zero vectors, every density proxy is 0, and the score printed for
  paragraph 1 is NaN.
\<close>

lemma run_script_hi_and_hundred_a:
  "run_script [[97] \<mapsto> [0]] ([104, 105] @ newline # replicate 100 97) ([(1, NaN)], None)"
proof -
  define ge :: table where "ge = [[97] \<mapsto> [0]]"
  define doc :: pystr where "doc = replicate 100 97"
  define conns :: "vec list" where "conns = replicate 99 [0]"
  have s: "split_lines ([104, 105] @ newline # doc) = [[104, 105], doc]"
    unfolding doc_def by (rule split_lines_two) (simp_all add: newline_def)
  have short: "length [104, 105 :: nat] < 100" by simp
  have long: "\<not> length doc < 100" by (simp add: doc_def)
  have "get_connections ge (replicate (Suc 99) [97]) (Inr (replicate 99 (map2 (-) [0] [0])))"
    by (rule get_connections_replicate) (simp add: ge_def)
  then have g: "get_connections ge (chars doc) (Inr conns)"
    by (simp add: chars_def doc_def conns_def)
  have "process_paragraphs ge [doc] (Inr (conns @ []))"
    using long g pp_end by (rule pp_extend)
  then have "process_paragraphs ge [[104, 105], doc] (Inr conns)"
    using short by (simp add: pp_continue)
  then have p: "process_text ge ([104, 105] @ newline # doc) (Inr conns)"
    by (simp only: process_text_def s)
  have "find_k_closest_avg conns [0] 3 = Inr (Fin 0)"
    unfolding conns_def by (rule find_k_closest_avg_replicate) simp
  then have "density_pairs conns (replicate 99 [0]) = Inr (replicate 99 ([0], Fin 0))"
    by (rule density_pairs_replicate)
  with tp_pairs [OF g, of conns]
  have t: "tokenized_probabilities ge doc conns (Inr (replicate 99 ([0], Fin 0)))"
    by (simp add: conns_def)
  have "information_of_statement (replicate (Suc 98) ([0 :: real], Fin 0))
      (Fin (1 / real (length doc))) = Inr NaN"
    by (rule information_of_statement_zeros [of _ 98]) simp
  then have i: "information_of_statement (replicate 99 ([0 :: real], Fin 0))
      (Fin (1 / real (length doc))) = Inr NaN"
    by (simp del: replicate_Suc replicate.simps)
  have "scoring_loop ge conns (Suc 0) [doc] ([(Suc 0, NaN)], None)"
    using long t i sl_end by (rule sl_print)
  then have "scoring_loop ge conns 0 [[104, 105], doc] ([(1, NaN)], None)"
    using short by (simp add: sl_continue)
  then have "scoring_loop ge conns 0 (split_lines ([104, 105] @ newline # doc)) ([(1, NaN)], None)"
    by (simp only: s)
  with p have "run_script ge ([104, 105] @ newline # doc) ([(1, NaN)], None)"
    by (rule run_score)
  then show ?thesis by (simp only: ge_def doc_def)
qed

subsection \<open>Short paragraphs\<close>

lemma process_paragraphs_corpus:
  assumes "process_paragraphs ge ps r" and "r = Inr conns"
  shows "\<exists>css. list_all2 (\<lambda>p cs. get_connections ge (chars p) (Inr cs))
            (filter (\<lambda>p. \<not> length p < 100) ps) css \<and> conns = concat css"
  using assms
proof (induction arbitrary: conns rule: process_paragraphs.induct)
  case pp_end
  then show ?case by simp
next
  case (pp_continue p rest r)
  then show ?case by simp
next
  case (pp_raise p err rest)
  then show ?case by simp
next
  case (pp_extend p cs rest connections)
  then obtain css where "list_all2 (\<lambda>p cs. get_connections ge (chars p) (Inr cs))
            (filter (\<lambda>p. \<not> length p < 100) rest) css" "connections = concat css"
    by blast
  with pp_extend(1,2,5) have "list_all2 (\<lambda>p cs. get_connections ge (chars p) (Inr cs))
            (filter (\<lambda>p. \<not> length p < 100) (p # rest)) (cs # css) \<and> conns = concat (cs # css)"
    by simp
  then show ?case by blast
next
  case (pp_later p cs rest err)
  then show ?case by simp
qed

lemma scoring_loop_indices:
  assumes "scoring_loop ge conns idx ps r"
  shows "\<exists>rest. map fst (fst r) @ rest =
           map fst (filter (\<lambda>(i, p). \<not> length p < 100) (enumerate idx ps)) \<and>
         (snd r = None \<longrightarrow> rest = [])"
  using assms
proof (induction rule: scoring_loop.induct)
  case (sl_end idx)
  then show ?case by simp
next
  case (sl_continue doc idx rest r)
  then show ?case by simp
next
  case (sl_raise doc err idx rest)
  then show ?case by simp
next
  case (sl_raise_score doc probs err idx rest)
  then show ?case by simp
next
  case (sl_print doc probs score idx rest printed status)
  then show ?case by simp
qed

lemma process_paragraphs_all_short:
  assumes "\<forall>p\<in>set ps. length p < 100"
  shows "process_paragraphs ge ps r \<longleftrightarrow> r = Inr []"
  using assms
proof (induction ps)
  case Nil
  show ?case by (auto elim: pp_nilE intro: pp_end)
next
  case (Cons p ps)
  then show ?case by (auto elim: pp_consE intro: pp_continue)
qed

lemma scoring_loop_all_short:
  assumes "\<forall>p\<in>set ps. length p < 100"
  shows "scoring_loop ge conns idx ps r \<longleftrightarrow> r = ([], None)"
  using assms
proof (induction ps arbitrary: idx)
  case Nil
  show ?case by (auto elim: sl_nilE intro: sl_end)
next
  case (Cons p ps)
  then show ?case by (auto elim: sl_consE intro: sl_continue)
qed

lemma run_script_all_short:
  assumes "\<forall>p\<in>set (split_lines doc). length p < 100"
  shows "run_script ge doc r \<longleftrightarrow> r = ([], None)"
proof
  assume "run_script ge doc r"
  then show "r = ([], None)"
    using assms
    by (auto elim!: run_script.cases
        simp: process_text_def process_paragraphs_all_short scoring_loop_all_short)
next
  assume "r = ([], None)"
  moreover have "process_text ge doc (Inr [])"
    using assms by (simp add: process_text_def process_paragraphs_all_short)
  moreover have "scoring_loop ge [] 0 (split_lines doc) ([], None)"
    using assms by (simp add: scoring_loop_all_short)
  ultimately show "run_script ge doc r" by (blast intro: run_score)
qed

text \<open>
  C8: a paragraph shorter than 100 characters contributes nothing to the reference
  corpus, which is the concatenation of the transitions of the qualifying paragraphs
  alone; the printed indices are those of the qualifying paragraphs, in order (all of
  them when the run ends without an exception); and when no paragraph qualifies the only
  outcome is the empty output without an exception.
\<close>

theorem short_paragraphs_skipped:
  "(process_text glove_embeddings document (Inr connections) \<longrightarrow>
      (\<exists>css. list_all2 (\<lambda>p cs. get_connections glove_embeddings (chars p) (Inr cs))
          (filter (\<lambda>p. \<not> length p < 100) (split_lines document)) css \<and>
        connections = concat css)) \<and>
   (run_script glove_embeddings document (printed, status) \<longrightarrow>
      (\<exists>rest. map fst printed @ rest =
          map fst (filter (\<lambda>(i, p). \<not> length p < 100) (enumerate 0 (split_lines document))) \<and>
        (status = None \<longrightarrow> rest = []))) \<and>
   ((\<forall>p\<in>set (split_lines document). length p < 100) \<longrightarrow>
      (run_script glove_embeddings document r \<longleftrightarrow> r = ([], None)))"
proof (intro conjI impI)
  assume "process_text glove_embeddings document (Inr connections)"
  then show "\<exists>css. list_all2 (\<lambda>p cs. get_connections glove_embeddings (chars p) (Inr cs))
          (filter (\<lambda>p. \<not> length p < 100) (split_lines document)) css \<and>
        connections = concat css"
    unfolding process_text_def by (rule process_paragraphs_corpus) simp
next
  assume "run_script glove_embeddings document (printed, status)"
  then obtain conns where
    "scoring_loop glove_embeddings conns 0 (split_lines document) (printed, status) \<or>
     (printed = [] \<and> status \<noteq> None)"
    by (auto elim!: run_script.cases)
  then show "\<exists>rest. map fst printed @ rest =
          map fst (filter (\<lambda>(i, p). \<not> length p < 100) (enumerate 0 (split_lines document))) \<and>
        (status = None \<longrightarrow> rest = [])"
    using scoring_loop_indices [of glove_embeddings conns 0 "split_lines document" "(printed, status)"]
    by auto
next
  assume "\<forall>p\<in>set (split_lines document). length p < 100"
  then show "run_script glove_embeddings document r \<longleftrightarrow> r = ([], None)"
    by (rule run_script_all_short)
qed

text \<open>
  The two-paragraph document above: only paragraph 1 qualifies and only index 1 is
  printed. The document \<open>"hi\nyo"\<close>: two short paragraphs, nothing printed.
\<close>

theorem short_paragraphs_skipped_witness:
  "run_script [[97] \<mapsto> [0]] ([104, 105] @ newline # replicate 100 97) ([(1, NaN)], None) \<and>
   map fst (filter (\<lambda>(i, p). \<not> length p < 100)
     (enumerate 0 (split_lines ([104, 105] @ newline # replicate 100 97)))) = [1] \<and>
   run_script Map.empty [104, 105, 10, 121, 111] ([], None)"
proof -
  let ?ge = "[[97] \<mapsto> [0 :: real]] :: table"
  let ?doc = "[104, 105] @ newline # replicate 100 97"
  note run = run_script_hi_and_hundred_a
  from short_paragraphs_skipped [of ?ge ?doc "[]" "[(1, NaN)]" None "([], None)"] run
  have "\<exists>rest. map fst [(1 :: nat, NaN)] @ rest =
          map fst (filter (\<lambda>(i, p). \<not> length p < 100) (enumerate 0 (split_lines ?doc))) \<and>
        (None = (None :: error option) \<longrightarrow> rest = [])"
    by blast
  then have q: "map fst (filter (\<lambda>(i, p). \<not> length p < 100)
      (enumerate 0 (split_lines ?doc))) = [1]"
    by auto
  have "split_lines [104, 105, 10, 121, 111] = [[104, 105], [121, 111]]"
    by (simp add: split_lines_def newline_def)
  then have "\<forall>p\<in>set (split_lines [104, 105, 10, 121, 111]). length p < 100" by simp
  with short_paragraphs_skipped [of Map.empty "[104, 105, 10, 121, 111]" "[]" "[]" None "([], None)"]
  have "run_script Map.empty [104, 105, 10, 121, 111] ([], None)" by blast
  with run q show ?thesis by blast
qed

subsection \<open>Deterministic lookups give one outcome\<close>

lemma get_connections_short: "length ws \<le> 1 \<Longrightarrow> get_connections ge ws r \<Longrightarrow> r = Inr []"
  by (auto elim: get_connections.cases)

lemma get_connections_det:
  assumes "\<forall>w\<in>set ws. deterministic_lookup ge w"
    and "get_connections ge ws r" and "get_connections ge ws r'"
  shows "r = r'"
  using assms
proof (induction ws arbitrary: r r' rule: induct_list012)
  case 1
  then have "r = Inr []" "r' = Inr []"
    by (auto dest: get_connections_short [rotated])
  then show ?case by simp
next
  case (2 w)
  then have "r = Inr []" "r' = Inr []"
    by (auto dest: get_connections_short [rotated])
  then show ?case by simp
next
  case (3 curr_w next_w rest)
  have d: "deterministic_lookup ge curr_w" "deterministic_lookup ge next_w"
    using 3(3) by simp_all
  have IH: "\<And>s s'. get_connections ge (next_w # rest) s \<Longrightarrow>
      get_connections ge (next_w # rest) s' \<Longrightarrow> s = s'"
    using 3(2) 3(3) by simp
  from 3(4) obtain e1 e2 where r: "get_glove_embedding ge curr_w e1"
      "get_glove_embedding ge next_w e2"
      "(\<exists>err. np_sub e1 e2 = Inl err \<and> r = Inl err) \<or>
       (\<exists>c cs. np_sub e1 e2 = Inr c \<and> get_connections ge (next_w # rest) (Inr cs) \<and> r = Inr (c # cs)) \<or>
       (\<exists>c err. np_sub e1 e2 = Inr c \<and> get_connections ge (next_w # rest) (Inl err) \<and> r = Inl err)"
    by (elim gc_consE) auto
  from 3(5) obtain e1' e2' where r': "get_glove_embedding ge curr_w e1'"
      "get_glove_embedding ge next_w e2'"
      "(\<exists>err. np_sub e1' e2' = Inl err \<and> r' = Inl err) \<or>
       (\<exists>c cs. np_sub e1' e2' = Inr c \<and> get_connections ge (next_w # rest) (Inr cs) \<and> r' = Inr (c # cs)) \<or>
       (\<exists>c err. np_sub e1' e2' = Inr c \<and> get_connections ge (next_w # rest) (Inl err) \<and> r' = Inl err)"
    by (elim gc_consE) auto
  have e: "e1' = e1" "e2' = e2"
    using d r(1,2) r'(1,2) by (auto simp: deterministic_lookup_def)
  show ?case using r(3) r'(3) e IH by (elim disjE exE conjE) (auto dest: IH)
qed

lemma process_paragraphs_det:
  assumes "\<forall>p\<in>set ps. \<not> length p < 100 \<longrightarrow> (\<forall>w\<in>set (chars p). deterministic_lookup ge w)"
    and "process_paragraphs ge ps r" and "process_paragraphs ge ps r'"
  shows "r = r'"
  using assms
proof (induction ps arbitrary: r r')
  case Nil
  then show ?case by (auto elim: pp_nilE)
next
  case (Cons p ps)
  have IH: "\<And>s s'. process_paragraphs ge ps s \<Longrightarrow> process_paragraphs ge ps s' \<Longrightarrow> s = s'"
    using Cons(1,2) by simp
  show ?case
  proof (cases "length p < 100")
    case True
    with Cons(3,4) have "process_paragraphs ge ps r" "process_paragraphs ge ps r'"
      by (auto elim: pp_consE)
    then show ?thesis by (rule IH)
  next
    case False
    then have d: "\<forall>w\<in>set (chars p). deterministic_lookup ge w" using Cons(2) by simp
    have G: "\<And>g g'. get_connections ge (chars p) g \<Longrightarrow> get_connections ge (chars p) g' \<Longrightarrow> g = g'"
      using get_connections_det [OF d] by blast
    from Cons(3) False obtain g where r: "get_connections ge (chars p) g"
      "(\<exists>err. g = Inl err \<and> r = Inl err) \<or>
       (\<exists>cs rest. g = Inr cs \<and> process_paragraphs ge ps (Inr rest) \<and> r = Inr (cs @ rest)) \<or>
       (\<exists>cs err. g = Inr cs \<and> process_paragraphs ge ps (Inl err) \<and> r = Inl err)"
      by (elim pp_consE) auto
    from Cons(4) False obtain g' where r': "get_connections ge (chars p) g'"
      "(\<exists>err. g' = Inl err \<and> r' = Inl err) \<or>
       (\<exists>cs rest. g' = Inr cs \<and> process_paragraphs ge ps (Inr rest) \<and> r' = Inr (cs @ rest)) \<or>
       (\<exists>cs err. g' = Inr cs \<and> process_paragraphs ge ps (Inl err) \<and> r' = Inl err)"
      by (elim pp_consE) auto
    have "g' = g" using G r(1) r'(1) by blast
    then show ?thesis using r(2) r'(2) by (elim disjE exE conjE) (auto dest: IH)
  qed
qed

lemma tokenized_probabilities_det:
  assumes "\<forall>w\<in>set (chars p). deterministic_lookup ge w"
    and "tokenized_probabilities ge p conns r" and "tokenized_probabilities ge p conns r'"
  shows "r = r'"
proof -
  have G: "\<And>g g'. get_connections ge (chars p) g \<Longrightarrow> get_connections ge (chars p) g' \<Longrightarrow> g = g'"
    using get_connections_det [OF assms(1)] by blast
  from assms(2) obtain g where g: "get_connections ge (chars p) g"
    "r = (case g of Inl err \<Rightarrow> Inl err | Inr pcs \<Rightarrow> density_pairs conns pcs)"
    by (auto elim!: tokenized_probabilities.cases)
  from assms(3) obtain g' where g': "get_connections ge (chars p) g'"
    "r' = (case g' of Inl err \<Rightarrow> Inl err | Inr pcs \<Rightarrow> density_pairs conns pcs)"
    by (auto elim!: tokenized_probabilities.cases)
  from G g(1) g'(1) have "g = g'" .
  with g(2) g'(2) show ?thesis by simp
qed

lemma scoring_loop_det:
  assumes "\<forall>p\<in>set ps. \<not> length p < 100 \<longrightarrow> (\<forall>w\<in>set (chars p). deterministic_lookup ge w)"
    and "scoring_loop ge conns idx ps r" and "scoring_loop ge conns idx ps r'"
  shows "r = r'"
  using assms
proof (induction ps arbitrary: idx r r')
  case Nil
  then show ?case by (auto elim: sl_nilE)
next
  case (Cons p ps)
  have IH: "\<And>s s'. scoring_loop ge conns (Suc idx) ps s \<Longrightarrow>
      scoring_loop ge conns (Suc idx) ps s' \<Longrightarrow> s = s'"
    using Cons(1,2) by simp
  show ?case
  proof (cases "length p < 100")
    case True
    with Cons(3,4) have "scoring_loop ge conns (Suc idx) ps r" "scoring_loop ge conns (Suc idx) ps r'"
      by (auto elim: sl_consE)
    then show ?thesis by (rule IH)
  next
    case False
    then have d: "\<forall>w\<in>set (chars p). deterministic_lookup ge w" using Cons(2) by simp
    have T: "\<And>t t'. tokenized_probabilities ge p conns t \<Longrightarrow>
        tokenized_probabilities ge p conns t' \<Longrightarrow> t = t'"
      using tokenized_probabilities_det [OF d] by blast
    let ?score = "\<lambda>probs. information_of_statement probs (Fin (1 / real (length p)))"
    from Cons(3) False obtain t where r: "tokenized_probabilities ge p conns t"
      "(\<exists>err. t = Inl err \<and> r = ([], Some err)) \<or>
       (\<exists>probs err. t = Inr probs \<and> ?score probs = Inl err \<and> r = ([], Some err)) \<or>
       (\<exists>probs score printed status. t = Inr probs \<and> ?score probs = Inr score \<and>
          scoring_loop ge conns (Suc idx) ps (printed, status) \<and>
          r = ((idx, score) # printed, status))"
      by (elim sl_consE) auto
    from Cons(4) False obtain t' where r': "tokenized_probabilities ge p conns t'"
      "(\<exists>err. t' = Inl err \<and> r' = ([], Some err)) \<or>
       (\<exists>probs err. t' = Inr probs \<and> ?score probs = Inl err \<and> r' = ([], Some err)) \<or>
       (\<exists>probs score printed status. t' = Inr probs \<and> ?score probs = Inr score \<and>
          scoring_loop ge conns (Suc idx) ps (printed, status) \<and>
          r' = ((idx, score) # printed, status))"
      by (elim sl_consE) auto
    have "t' = t" using T r(1) r'(1) by blast
    then show ?thesis using r(2) r'(2) by (elim disjE exE conjE) (auto dest: IH)
  qed
qed

lemma run_script_det:
  assumes "\<forall>p\<in>set (split_lines doc). \<not> length p < 100 \<longrightarrow>
      (\<forall>w\<in>set (chars p). deterministic_lookup ge w)"
    and "run_script ge doc r" and "run_script ge doc r'"
  shows "r = r'"
proof -
  have P: "\<And>c c'. process_text ge doc c \<Longrightarrow> process_text ge doc c' \<Longrightarrow> c = c'"
    unfolding process_text_def using process_paragraphs_det [OF assms(1)] by blast
  from assms(2) obtain c where c: "process_text ge doc c"
    "(\<exists>err. c = Inl err \<and> r = ([], Some err)) \<or>
     (\<exists>conns. c = Inr conns \<and> scoring_loop ge conns 0 (split_lines doc) r)"
    by (auto elim!: run_script.cases)
  from assms(3) obtain c' where c': "process_text ge doc c'"
    "(\<exists>err. c' = Inl err \<and> r' = ([], Some err)) \<or>
     (\<exists>conns. c' = Inr conns \<and> scoring_loop ge conns 0 (split_lines doc) r')"
    by (auto elim!: run_script.cases)
  have "c' = c" using P c(1) c'(1) by blast
  then show ?thesis using c(2) c'(2) scoring_loop_det [OF assms(1)]
    by (elim disjE exE conjE) auto
qed

lemma lookup_deterministic_found: "ge w = Some v \<Longrightarrow> deterministic_lookup ge w"
  by (auto simp: deterministic_lookup_def elim!: get_glove_embedding.cases)

text \<open>The source's own lookup is deterministic exactly for the words of the table.\<close>

lemma lookup_deterministic_iff: "deterministic_lookup ge w \<longleftrightarrow> ge w \<noteq> None"
proof
  assume d: "deterministic_lookup ge w"
  show "ge w \<noteq> None"
  proof
    assume n: "ge w = None"
    have "get_glove_embedding ge w (replicate 50 (real_of_int 0))"
      using n by (intro fallback) (simp_all add: randint_def)
    moreover have "get_glove_embedding ge w (replicate 50 (real_of_int 1))"
      using n by (intro fallback) (simp_all add: randint_def)
    ultimately have "replicate 50 (real_of_int 0) = replicate 50 (real_of_int 1)"
      using d unfolding deterministic_lookup_def by blast
    then show False by (simp add: replicate_eq_replicate)
  qed
next
  assume "ge w \<noteq> None"
  then show "deterministic_lookup ge w" by (auto intro: lookup_deterministic_found)
qed

text \<open>
  C9: when the lookup of every character of every qualifying paragraph is deterministic,
  the script has exactly one possible outcome on a document: any two runs print the same
  sequence of (index, score) pairs and end the same way.
\<close>

theorem run_script_deterministic:
  assumes "\<forall>p\<in>set (split_lines document). \<not> length p < 100 \<longrightarrow>
      (\<forall>w\<in>set (chars p). deterministic_lookup glove_embeddings w)"
  shows "\<exists>!r. run_script glove_embeddings document r"
  using run_script_total run_script_det [OF assms] by blast

text \<open>
  The two-paragraph document above: every character of the qualifying paragraph is in
  the table, and the one outcome is the score NaN for paragraph 1.
\<close>

theorem run_script_deterministic_witness:
  "(\<exists>!r. run_script [[97] \<mapsto> [0]] ([104, 105] @ newline # replicate 100 97) r) \<and>
   run_script [[97] \<mapsto> [0]] ([104, 105] @ newline # replicate 100 97) ([(1, NaN)], None)"
proof
  show "\<exists>!r. run_script [[97] \<mapsto> [0]] ([104, 105] @ newline # replicate 100 97) r"
  proof (rule run_script_deterministic)
    have "split_lines ([104, 105] @ newline # replicate 100 97) = [[104, 105], replicate 100 97]"
      by (rule split_lines_two) (simp_all add: newline_def)
    moreover have "deterministic_lookup [[97] \<mapsto> [0]] [97]"
      by (rule lookup_deterministic_found) simp
    ultimately show "\<forall>p\<in>set (split_lines ([104, 105] @ newline # replicate 100 97)).
        \<not> length p < 100 \<longrightarrow> (\<forall>w\<in>set (chars p). deterministic_lookup [[97] \<mapsto> [0]] w)"
      by (auto simp: chars_def)
  qed
  show "run_script [[97] \<mapsto> [0]] ([104, 105] @ newline # replicate 100 97) ([(1, NaN)], None)"
    by (rule run_script_hi_and_hundred_a)
qed

end
